theory Spec2Isabelle
  imports Main
begin

section \<open>DeallocatingVector: a block-wise vector with a deallocating iterator\<close>

text \<open>
  The development embeds \<^verbatim>\<open>DataStructures/DeallocatingVector.h\<close>. The template
  parameter \<^verbatim>\<open>ELEMENTS_PER_BLOCK\<close> is the first argument \<open>epb\<close> of every function
  that uses it; the element type \<^verbatim>\<open>ElementT\<close> is the type variable \<open>'a\<close>.

  Storage is explicit. A block made by \<^verbatim>\<open>new ElementT[ELEMENTS_PER_BLOCK]\<close> lives in a
  heap under an address; a pointer is an \<open>addr option\<close>, \<open>None\<close> being \<^verbatim>\<open>nullptr\<close>.
  The heap never hands out an address twice, so a pointer to a block that was given
  back with \<^verbatim>\<open>delete[]\<close> stays dangling; using it is reported as undefined behaviour.
  The heap also keeps the list of addresses it was given back, in the order of the
  \<^verbatim>\<open>delete[]\<close> calls. Allocation always succeeds.

  Numbers of elements and blocks (\<^verbatim>\<open>std::size_t\<close> in the source) are natural numbers:
  they count storage that exists, so they stay below \<open>2 ^ 64\<close>. Where the source
  computes beyond what exists, the reduction modulo \<open>2 ^ 64\<close> is written out: in the
  growing loop of \<^verbatim>\<open>resize\<close>, which compares the product \<^verbatim>\<open>capacity()\<close> with an
  argument that may be any \<^verbatim>\<open>std::size_t\<close>, and in the random-access iterator
  (\<^verbatim>\<open>decrement\<close> is \<^verbatim>\<open>advance(-1)\<close>, \<^verbatim>\<open>distance_to\<close> subtracts two unsigned indices
  and returns a \<^verbatim>\<open>std::ptrdiff_t\<close>).
\<close>

subsection \<open>Machine sizes\<close>

text \<open>\<^verbatim>\<open>std::size_t\<close> has 64 bits.\<close>

definition size_t_modulus :: nat where
  "size_t_modulus = 2 ^ 64"

subsection \<open>Failures\<close>

datatype ub = NullDereference | IndexPastEnd | UseAfterFree | DoubleFree

datatype error =
    OutOfRange  \<comment> \<open>\<^verbatim>\<open>std::out_of_range\<close>, thrown by \<^verbatim>\<open>std::vector::at\<close>\<close>
  | Undefined ub  \<comment> \<open>the source has undefined behaviour here\<close>

subsection \<open>The heap of blocks\<close>

type_synonym addr = nat

text \<open>A slot of a block holds \<open>None\<close> until something is assigned to it.\<close>

record 'a heap =
  blocks :: "addr \<rightharpoonup> 'a option list"
  fresh :: addr
  released :: "addr list"

definition empty_heap :: "'a heap" where
  "empty_heap = \<lparr>blocks = Map.empty, fresh = 0, released = []\<rparr>"

text \<open>\<^verbatim>\<open>new ElementT[ELEMENTS_PER_BLOCK]\<close>\<close>

definition new_block :: "nat \<Rightarrow> 'a heap \<Rightarrow> addr \<times> 'a heap" where
  "new_block epb h =
     (fresh h, h\<lparr>blocks := (blocks h)(fresh h \<mapsto> replicate epb None), fresh := Suc (fresh h)\<rparr>)"

text \<open>\<^verbatim>\<open>delete[] p\<close>: nothing happens for a null pointer; the block must be live.\<close>

definition delete_array :: "addr option \<Rightarrow> 'a heap \<Rightarrow> error + 'a heap" where
  "delete_array p h =
     (case p of
        None \<Rightarrow> Inr h
      | Some a \<Rightarrow>
          (case blocks h a of
             None \<Rightarrow> Inl (Undefined DoubleFree)
           | Some cells \<Rightarrow> Inr (h\<lparr>blocks := (blocks h)(a := None), released := released h @ [a]\<rparr>)))"

text \<open>
  A reference \<^verbatim>\<open>ElementT &\<close> is the address of a block and an offset into it;
  \<^verbatim>\<open>p[i]\<close> on a null pointer \<open>p\<close> has no referent.
\<close>

type_synonym ref = "addr \<times> nat"

definition slot_ref :: "addr option \<Rightarrow> nat \<Rightarrow> error + ref" where
  "slot_ref p i = (case p of None \<Rightarrow> Inl (Undefined NullDereference) | Some a \<Rightarrow> Inr (a, i))"

definition load :: "'a heap \<Rightarrow> ref \<Rightarrow> error + 'a option" where
  "load h r =
     (case blocks h (fst r) of
        None \<Rightarrow> Inl (Undefined UseAfterFree)
      | Some cells \<Rightarrow> if snd r < length cells then Inr (cells ! snd r) else Inl (Undefined IndexPastEnd))"

definition store :: "ref \<Rightarrow> 'a \<Rightarrow> 'a heap \<Rightarrow> error + 'a heap" where
  "store r x h =
     (case blocks h (fst r) of
        None \<Rightarrow> Inl (Undefined UseAfterFree)
      | Some cells \<Rightarrow>
          if snd r < length cells
          then Inr (h\<lparr>blocks := (blocks h)(fst r \<mapsto> cells[snd r := Some x])\<rparr>)
          else Inl (Undefined IndexPastEnd))"

subsection \<open>The container\<close>

record dvector =
  current_size :: nat
  bucket_list :: "addr option list"

type_synonym 'a state = "'a heap \<times> dvector"

text \<open>The constructor: size 0 and one allocated block.\<close>

definition construct :: "nat \<Rightarrow> 'a heap \<Rightarrow> 'a state" where
  "construct epb h =
     (let (a, h') = new_block epb h in (h', \<lparr>current_size = 0, bucket_list = [Some a]\<rparr>))"

definition size_of :: "dvector \<Rightarrow> nat" where
  "size_of v = current_size v"

definition capacity :: "nat \<Rightarrow> dvector \<Rightarrow> nat" where
  "capacity epb v = length (bucket_list v) * epb"

definition swap_dv :: "dvector \<times> dvector \<Rightarrow> dvector \<times> dvector" where
  "swap_dv p =
     (let (this, other) = p in
        (this\<lparr>current_size := current_size other, bucket_list := bucket_list other\<rparr>,
         other\<lparr>current_size := current_size this, bucket_list := bucket_list this\<rparr>))"

text \<open>
  The loop of \<^verbatim>\<open>clear\<close>: every bucket that is not null is deleted. The assignment
  \<^verbatim>\<open>bucket = nullptr\<close> of the source changes the loop variable, a copy, only.
\<close>

fun clear_buckets :: "addr option list \<Rightarrow> 'a heap \<Rightarrow> error + 'a heap" where
  "clear_buckets [] h = Inr h"
| "clear_buckets (bucket # rest) h =
     (if bucket \<noteq> None
      then (case delete_array bucket h of Inl e \<Rightarrow> Inl e | Inr h' \<Rightarrow> clear_buckets rest h')
      else clear_buckets rest h)"

definition clear :: "'a state \<Rightarrow> error + 'a state" where
  "clear s =
     (let (h, v) = s in
        case clear_buckets (bucket_list v) h of
          Inl e \<Rightarrow> Inl e
        | Inr h' \<Rightarrow> Inr (h', v\<lparr>bucket_list := [], current_size := 0\<rparr>))"

text \<open>\<^verbatim>\<open>bucket_list.push_back(new ElementT[ELEMENTS_PER_BLOCK])\<close>\<close>

definition append_block :: "nat \<Rightarrow> 'a state \<Rightarrow> 'a state" where
  "append_block epb s =
     (let (h, v) = s; (a, h') = new_block epb h
      in (h', v\<lparr>bucket_list := bucket_list v @ [Some a]\<rparr>))"

text \<open>\<^verbatim>\<open>bucket_list.back()\<close>; the source does not check that the vector is non-empty.\<close>

definition vec_back :: "addr option list \<Rightarrow> error + addr option" where
  "vec_back bl = (if bl = [] then Inl (Undefined IndexPastEnd) else Inr (last bl))"

definition push_back :: "nat \<Rightarrow> 'a \<Rightarrow> 'a state \<Rightarrow> error + 'a state" where
  "push_back epb element s =
     (let current_capacity = capacity epb (snd s);
          (h, v) = (if current_size (snd s) = current_capacity then append_block epb s else s);
          current_index = size_of v mod epb
      in case vec_back (bucket_list v) of
           Inl e \<Rightarrow> Inl e
         | Inr p \<Rightarrow>
             (case slot_ref p current_index of
                Inl e \<Rightarrow> Inl e
              | Inr r \<Rightarrow>
                  (case store r element h of
                     Inl e \<Rightarrow> Inl e
                   | Inr h' \<Rightarrow> Inr (h', v\<lparr>current_size := current_size v + 1\<rparr>))))"

text \<open>
  \<^verbatim>\<open>emplace_back\<close> has the body of \<^verbatim>\<open>push_back\<close>; its argument here is the element
  \<^verbatim>\<open>ElementT(std::forward<Ts>(element)...)\<close> that the source constructs and assigns.
\<close>

definition emplace_back :: "nat \<Rightarrow> 'a \<Rightarrow> 'a state \<Rightarrow> error + 'a state" where
  "emplace_back epb element s =
     (let current_capacity = capacity epb (snd s);
          (h, v) = (if current_size (snd s) = current_capacity then append_block epb s else s);
          current_index = size_of v mod epb
      in case vec_back (bucket_list v) of
           Inl e \<Rightarrow> Inl e
         | Inr p \<Rightarrow>
             (case slot_ref p current_index of
                Inl e \<Rightarrow> Inl e
              | Inr r \<Rightarrow>
                  (case store r element h of
                     Inl e \<Rightarrow> Inl e
                   | Inr h' \<Rightarrow> Inr (h', v\<lparr>current_size := current_size v + 1\<rparr>))))"

text \<open>\<^verbatim>\<open>reserve\<close> has an empty body.\<close>

definition reserve :: "nat \<Rightarrow> 'a state \<Rightarrow> 'a state" where
  "reserve n s = s"

text \<open>
  The growing loop of \<^verbatim>\<open>resize\<close>, \<^verbatim>\<open>while (capacity() < new_size)\<close>. The source
  computes \<^verbatim>\<open>capacity()\<close> as a \<^verbatim>\<open>std::size_t\<close> product, so the loop tests the product
  modulo \<open>2 ^ 64\<close>. The loop does not end with a block capacity of 0, nor when no
  multiple of the block capacity lies between \<open>new_size\<close> and \<open>2 ^ 64 - 1\<close>; its
  result is an option, and \<open>None\<close> is not returning.
\<close>

partial_function (option) grow_to :: "nat \<Rightarrow> nat \<Rightarrow> 'a state \<Rightarrow> 'a state option" where
  "grow_to epb new_size s =
     (if capacity epb (snd s) mod size_t_modulus < new_size
      then grow_to epb new_size (append_block epb s)
      else Some s)"

text \<open>The shrinking loop of \<^verbatim>\<open>resize\<close> deletes every bucket, without a null test.\<close>

fun delete_buckets :: "addr option list \<Rightarrow> 'a heap \<Rightarrow> error + 'a heap" where
  "delete_buckets [] h = Inr h"
| "delete_buckets (bucket # rest) h =
     (case delete_array bucket h of Inl e \<Rightarrow> Inl e | Inr h' \<Rightarrow> delete_buckets rest h')"

text \<open>
  \<^verbatim>\<open>std::vector<ElementT *>::resize(n)\<close>: the first \<open>n\<close> pointers are kept as they are,
  and missing ones are value-initialised, that is, null.
\<close>

definition vec_resize :: "nat \<Rightarrow> addr option list \<Rightarrow> addr option list" where
  "vec_resize n bl = take n bl @ replicate (n - length bl) None"

definition resize :: "nat \<Rightarrow> nat \<Rightarrow> 'a state \<Rightarrow> (error + 'a state) option" where
  "resize epb new_size s =
     (if new_size \<ge> current_size (snd s)
      then (case grow_to epb new_size s of
              None \<Rightarrow> None
            | Some (h, v) \<Rightarrow> Some (Inr (h, v\<lparr>current_size := new_size\<rparr>)))
      else (let (h, v) = s;
                number_of_necessary_buckets = 1 + (new_size div epb)
            in case delete_buckets (bucket_list v) h of
                 Inl e \<Rightarrow> Some (Inl e)
               | Inr h' \<Rightarrow>
                   Some (Inr (h', v\<lparr>bucket_list := vec_resize number_of_necessary_buckets (bucket_list v),
                                    current_size := new_size\<rparr>))))"

text \<open>
  \<^verbatim>\<open>operator[]\<close> and \<^verbatim>\<open>back\<close> return a reference. The block sequence is indexed
  with the unchecked \<^verbatim>\<open>operator[]\<close> of \<^verbatim>\<open>std::vector\<close>.
\<close>

definition vec_index :: "addr option list \<Rightarrow> nat \<Rightarrow> error + addr option" where
  "vec_index bl i = (if i < length bl then Inr (bl ! i) else Inl (Undefined IndexPastEnd))"

definition subscript :: "nat \<Rightarrow> dvector \<Rightarrow> nat \<Rightarrow> error + ref" where
  "subscript epb v i =
     (let bucket = i div epb; idx = i mod epb
      in case vec_index (bucket_list v) bucket of Inl e \<Rightarrow> Inl e | Inr p \<Rightarrow> slot_ref p idx)"

definition back_dv :: "nat \<Rightarrow> dvector \<Rightarrow> error + ref" where
  "back_dv epb v =
     (let bucket = current_size v div epb; idx = current_size v mod epb
      in case vec_index (bucket_list v) bucket of Inl e \<Rightarrow> Inl e | Inr p \<Rightarrow> slot_ref p idx)"

text \<open>Reading the element that \<^verbatim>\<open>container[i]\<close> refers to.\<close>

definition get :: "nat \<Rightarrow> 'a state \<Rightarrow> nat \<Rightarrow> error + 'a option" where
  "get epb s i = (case subscript epb (snd s) i of Inl e \<Rightarrow> Inl e | Inr r \<Rightarrow> load (fst s) r)"

subsection \<open>The iterators\<close>

text \<open>
  \<^verbatim>\<open>DeallocatingVectorIteratorState\<close> is an index and a pointer to the block sequence
  of a container. The functions that follow the pointer take the container it points to.
\<close>

record iterator_state =
  index :: nat

text \<open>\<^verbatim>\<open>std::vector::at\<close> checks its index.\<close>

definition vec_at :: "addr option list \<Rightarrow> nat \<Rightarrow> error + addr option" where
  "vec_at bl i = (if i < length bl then Inr (bl ! i) else Inl OutOfRange)"

subsubsection \<open>DeallocatingVectorIterator\<close>

text \<open>The conversion of a \<^verbatim>\<open>std::size_t\<close> to \<^verbatim>\<open>std::ptrdiff_t\<close>, two's complement.\<close>

definition to_ptrdiff :: "nat \<Rightarrow> int" where
  "to_ptrdiff d = (if d < 2 ^ 63 then int d else int d - 2 ^ 64)"

definition advance :: "nat \<Rightarrow> iterator_state \<Rightarrow> iterator_state" where
  "advance n it = it\<lparr>index := (index it + n) mod size_t_modulus\<rparr>"

definition increment :: "iterator_state \<Rightarrow> iterator_state" where
  "increment it = advance 1 it"

text \<open>\<^verbatim>\<open>advance(-1)\<close>: the argument is a \<^verbatim>\<open>std::size_t\<close>, so \<open>-1\<close> is \<open>2 ^ 64 - 1\<close>.\<close>

definition decrement :: "iterator_state \<Rightarrow> iterator_state" where
  "decrement it = advance (size_t_modulus - 1) it"

definition equal_it :: "iterator_state \<Rightarrow> iterator_state \<Rightarrow> bool" where
  "equal_it it other = (index it = index other)"

definition distance_to :: "iterator_state \<Rightarrow> iterator_state \<Rightarrow> int" where
  "distance_to it other =
     to_ptrdiff (nat ((int (index other) - int (index it)) mod int size_t_modulus))"

definition dereference :: "nat \<Rightarrow> dvector \<Rightarrow> iterator_state \<Rightarrow> error + ref" where
  "dereference epb v it =
     (let current_bucket = index it div epb; current_index = index it mod epb
      in case vec_at (bucket_list v) current_bucket of
           Inl e \<Rightarrow> Inl e
         | Inr p \<Rightarrow> slot_ref p current_index)"

definition begin_it :: "dvector \<Rightarrow> iterator_state" where
  "begin_it v = \<lparr>index = 0\<rparr>"

definition end_it :: "dvector \<Rightarrow> iterator_state" where
  "end_it v = \<lparr>index = size_of v\<rparr>"

subsubsection \<open>DeallocatingVectorRemoveIterator\<close>

text \<open>
  \<^verbatim>\<open>increment\<close> changes the heap and the block sequence the iterator points to.
  A bucket index that \<^verbatim>\<open>at\<close> rejects ends the call with the exception.
\<close>

definition rm_increment ::
  "nat \<Rightarrow> 'a state \<times> iterator_state \<Rightarrow> error + 'a state \<times> iterator_state" where
  "rm_increment epb c =
     (let ((h, v), it) = c;
          old_bucket = index it div epb;
          it' = it\<lparr>index := index it + 1\<rparr>;
          new_bucket = index it' div epb
      in if old_bucket \<noteq> new_bucket
         then (case vec_at (bucket_list v) old_bucket of
                 Inl e \<Rightarrow> Inl e
               | Inr p \<Rightarrow>
                   if p \<noteq> None
                   then (case delete_array p h of
                           Inl e \<Rightarrow> Inl e
                         | Inr h' \<Rightarrow> Inr ((h', v\<lparr>bucket_list := (bucket_list v)[old_bucket := None]\<rparr>), it'))
                   else Inr ((h, v), it'))
         else Inr ((h, v), it'))"

definition rm_equal :: "iterator_state \<Rightarrow> iterator_state \<Rightarrow> bool" where
  "rm_equal it other = (index it = index other)"

definition rm_distance_to :: "iterator_state \<Rightarrow> iterator_state \<Rightarrow> int" where
  "rm_distance_to it other =
     to_ptrdiff (nat ((int (index other) - int (index it)) mod int size_t_modulus))"

definition rm_dereference :: "nat \<Rightarrow> dvector \<Rightarrow> iterator_state \<Rightarrow> error + ref" where
  "rm_dereference epb v it =
     (let current_bucket = index it div epb; current_index = index it mod epb
      in case vec_at (bucket_list v) current_bucket of
           Inl e \<Rightarrow> Inl e
         | Inr p \<Rightarrow> slot_ref p current_index)"

definition dbegin :: "dvector \<Rightarrow> iterator_state" where
  "dbegin v = \<lparr>index = 0\<rparr>"

definition dend :: "dvector \<Rightarrow> iterator_state" where
  "dend v = \<lparr>index = size_of v\<rparr>"

text \<open>Incrementing a deallocation iterator \<open>n\<close> times.\<close>

fun increment_times ::
  "nat \<Rightarrow> nat \<Rightarrow> 'a state \<times> iterator_state \<Rightarrow> error + 'a state \<times> iterator_state" where
  "increment_times epb 0 c = Inr c"
| "increment_times epb (Suc n) c =
     (case increment_times epb n c of Inl e \<Rightarrow> Inl e | Inr c' \<Rightarrow> rm_increment epb c')"

subsection \<open>Client programs\<close>

text \<open>Pushing the values of a list, first to last; the first failure ends the run.\<close>

fun push_all :: "nat \<Rightarrow> 'a list \<Rightarrow> 'a state \<Rightarrow> error + 'a state" where
  "push_all epb [] s = Inr s"
| "push_all epb (x # xs) s =
     (case push_back epb x s of Inl e \<Rightarrow> Inl e | Inr s' \<Rightarrow> push_all epb xs s')"

text \<open>
  A program over two containers in one heap: every command but \<open>Swap\<close> is a call on the
  first container, \<open>Swap\<close> is \<^verbatim>\<open>swap\<close> of the first with the second. A run is
  \<open>None\<close> when a call does not return, and \<open>Some (Inl e)\<close> when a call fails.
\<close>

datatype 'a command = PushBack 'a | EmplaceBack 'a | Reserve nat | Resize nat | Clear | Swap

type_synonym 'a world = "'a heap \<times> dvector \<times> dvector"

definition with_other :: "dvector \<Rightarrow> error + 'a state \<Rightarrow> error + 'a world" where
  "with_other other r = (case r of Inl e \<Rightarrow> Inl e | Inr (h, this) \<Rightarrow> Inr (h, this, other))"

fun step :: "nat \<Rightarrow> 'a command \<Rightarrow> 'a world \<Rightarrow> (error + 'a world) option" where
  "step epb (PushBack x) (h, this, other) = Some (with_other other (push_back epb x (h, this)))"
| "step epb (EmplaceBack x) (h, this, other) = Some (with_other other (emplace_back epb x (h, this)))"
| "step epb (Reserve n) (h, this, other) = Some (with_other other (Inr (reserve n (h, this))))"
| "step epb (Resize n) (h, this, other) = map_option (with_other other) (resize epb n (h, this))"
| "step epb Clear (h, this, other) = Some (with_other other (clear (h, this)))"
| "step epb Swap (h, this, other) = Some (Inr (h, swap_dv (this, other)))"

fun run :: "nat \<Rightarrow> 'a command list \<Rightarrow> 'a world \<Rightarrow> (error + 'a world) option" where
  "run epb [] w = Some (Inr w)"
| "run epb (c # cs) w =
     (case step epb c w of
        None \<Rightarrow> None
      | Some (Inl e) \<Rightarrow> Some (Inl e)
      | Some (Inr w') \<Rightarrow> run epb cs w')"

text \<open>Two containers, constructed one after the other in the empty heap.\<close>

definition initial :: "nat \<Rightarrow> 'a world" where
  "initial epb =
     (let (h1, this) = construct epb empty_heap; (h2, other) = construct epb h1
      in (h2, this, other))"

subsection \<open>The representation invariant\<close>

text \<open>
  A container owns its blocks: the pointers of its block sequence that are not null are
  pairwise different, and each is the address of a live block of \<open>epb\<close> slots that the
  heap has handed out. Its size does not exceed its capacity.
\<close>

definition live_block :: "nat \<Rightarrow> 'a heap \<Rightarrow> addr \<Rightarrow> bool" where
  "live_block epb h a \<longleftrightarrow>
     a < fresh h \<and> (case blocks h a of None \<Rightarrow> False | Some cells \<Rightarrow> length cells = epb)"

definition owns :: "nat \<Rightarrow> 'a heap \<Rightarrow> addr option list \<Rightarrow> bool" where
  "owns epb h bl \<longleftrightarrow>
     distinct (filter (\<lambda>p. p \<noteq> None) bl) \<and>
     list_all (\<lambda>p. case p of None \<Rightarrow> True | Some a \<Rightarrow> live_block epb h a) bl"

definition invar :: "nat \<Rightarrow> 'a state \<Rightarrow> bool" where
  "invar epb s \<longleftrightarrow>
     owns epb (fst s) (bucket_list (snd s)) \<and> current_size (snd s) \<le> capacity epb (snd s)"

text \<open>No block of the container has been released by a deallocation iterator.\<close>

definition no_released :: "dvector \<Rightarrow> bool" where
  "no_released v \<longleftrightarrow> list_all (\<lambda>p. p \<noteq> None) (bucket_list v)"

text \<open>
  The state of a container that holds exactly the values \<open>xs\<close>, in blocks allocated one
  at a time as the values were pushed.
\<close>

definition filled :: "nat \<Rightarrow> 'a state \<Rightarrow> 'a list \<Rightarrow> bool" where
  "filled epb s xs \<longleftrightarrow>
     invar epb s \<and> no_released (snd s) \<and> bucket_list (snd s) \<noteq> [] \<and>
     (length (bucket_list (snd s)) - 1) * epb \<le> current_size (snd s) \<and>
     current_size (snd s) = length xs \<and>
     list_all (\<lambda>i. get epb s i = Inr (Some (xs ! i))) [0..<length xs]"

text \<open>Two weaker facts about a state, used on the way.\<close>

definition below_fresh :: "'a state \<Rightarrow> bool" where
  "below_fresh s \<longleftrightarrow>
     list_all (\<lambda>p. case p of None \<Rightarrow> True | Some a \<Rightarrow> a < fresh (fst s)) (bucket_list (snd s))"

definition sized :: "nat \<Rightarrow> dvector \<Rightarrow> bool" where
  "sized epb v \<longleftrightarrow> current_size v \<le> capacity epb v"

subsection \<open>A small container\<close>

text \<open>
  Blocks of two elements. \<open>three_pushed\<close> is a new container after three calls of
  \<^verbatim>\<open>push_back\<close>: two blocks, the second half filled. \<open>three_drained\<close> is that
  container and a deallocation iterator after the iterator went from \<^verbatim>\<open>dbegin()\<close> to
  \<^verbatim>\<open>dend()\<close>; \<open>three_shrunk\<close> is the container after \<^verbatim>\<open>resize(1)\<close>.
\<close>

definition three_pushed :: "nat state" where
  "three_pushed = projr (push_all 2 [10, 20, 30] (construct 2 empty_heap))"

definition three_drained :: "nat state \<times> iterator_state" where
  "three_drained =
     projr (increment_times 2 (size_of (snd three_pushed)) (three_pushed, dbegin (snd three_pushed)))"

definition three_shrunk :: "nat state" where
  "three_shrunk = projr (the (resize 2 1 three_pushed))"

text \<open>\<open>two_pushed\<close> is a new container after two calls: one block, and it is full.\<close>

definition two_pushed :: "nat state" where
  "two_pushed = projr (push_all 2 [10, 20] (construct 2 empty_heap))"

definition example_program :: "nat command list" where
  "example_program =
     [PushBack 10, PushBack 20, PushBack 30, Resize 5, Swap, EmplaceBack 7, Reserve 9, Swap,
      Clear, PushBack 4, Swap, PushBack 8, PushBack 9, Resize 1]"

section \<open>Properties\<close>

subsection \<open>Ownership\<close>

lemma owns_Nil: "owns epb h []"
  by (simp add: owns_def)

lemma owns_nth:
  assumes "owns epb h bl" "k < length bl" "bl ! k = Some a"
  shows "live_block epb h a"
  using assms by (auto simp: owns_def list_all_length split: option.splits)

lemma filter_distinct_nth:
  "distinct (filter P xs) \<Longrightarrow> i < length xs \<Longrightarrow> j < length xs \<Longrightarrow> xs ! i = xs ! j \<Longrightarrow>
   P (xs ! i) \<Longrightarrow> i = j"
proof (induction xs arbitrary: i j)
  case Nil
  then show ?case by simp
next
  case (Cons x xs)
  then show ?case
    by (cases i; cases j) (auto split: if_splits)
qed

lemma owns_distinct_nth:
  assumes "owns epb h bl" "j < length bl" "k < length bl" "bl ! j = Some a" "bl ! k = Some a"
  shows "j = k"
proof -
  from assms(1) have "distinct (filter (\<lambda>p. p \<noteq> None) bl)" by (simp add: owns_def)
  from filter_distinct_nth [OF this assms(2,3)] assms(4,5) show ?thesis by simp
qed

lemma owns_Cons:
  "owns epb h (p # bl) \<longleftrightarrow>
     (case p of None \<Rightarrow> owns epb h bl
      | Some a \<Rightarrow> Some a \<notin> set bl \<and> live_block epb h a \<and> owns epb h bl)"
  by (auto simp: owns_def split: option.splits)

lemma owns_member:
  "owns epb h bl \<Longrightarrow> Some a \<in> set bl \<Longrightarrow> live_block epb h a"
  by (auto simp: owns_def list_all_iff split: option.splits)

lemma owns_heap_cong:
  assumes "owns epb h bl" and "\<And>a. Some a \<in> set bl \<Longrightarrow> live_block epb h' a"
  shows "owns epb h' bl"
  using assms by (auto simp: owns_def list_all_iff split: option.splits)

lemma delete_array_live:
  assumes "live_block epb h a"
  shows "delete_array (Some a) h = Inr (h\<lparr>blocks := (blocks h)(a := None), released := released h @ [a]\<rparr>)"
  using assms by (auto simp: delete_array_def live_block_def split: option.splits)

lemma clear_buckets_owned:
  assumes "owns epb h bl"
  shows "\<exists>h'. clear_buckets bl h = Inr h' \<and> fresh h' = fresh h \<and>
           released h' = released h @ map the (filter (\<lambda>p. p \<noteq> None) bl) \<and>
           (\<forall>a. blocks h' a = (if Some a \<in> set bl then None else blocks h a))"
  using assms
proof (induction bl arbitrary: h)
  case Nil
  then show ?case by simp
next
  case (Cons p bl)
  show ?case
  proof (cases p)
    case None
    with Cons.prems have "owns epb h bl" by (simp add: owns_Cons)
    from Cons.IH [OF this] None show ?thesis by auto
  next
    case (Some a)
    with Cons.prems have fresh_a: "Some a \<notin> set bl" and live: "live_block epb h a"
      and rest: "owns epb h bl" by (simp_all add: owns_Cons)
    let ?h1 = "h\<lparr>blocks := (blocks h)(a := None), released := released h @ [a]\<rparr>"
    have del: "delete_array (Some a) h = Inr ?h1" by (rule delete_array_live [OF live])
    have "owns epb ?h1 bl"
    proof (rule owns_heap_cong [OF rest])
      fix b assume b: "Some b \<in> set bl"
      with fresh_a have "b \<noteq> a" by auto
      with owns_member [OF rest b] show "live_block epb ?h1 b" by (simp add: live_block_def)
    qed
    from Cons.IH [OF this] obtain h' where
      h': "clear_buckets bl ?h1 = Inr h'" "fresh h' = fresh ?h1"
        "released h' = released ?h1 @ map the (filter (\<lambda>p. p \<noteq> None) bl)"
        "\<forall>b. blocks h' b = (if Some b \<in> set bl then None else blocks ?h1 b)"
      by blast
    have "clear_buckets (p # bl) h = Inr h'" using Some del h'(1) by simp
    moreover have "fresh h' = fresh h" using h'(2) by simp
    moreover have "released h' = released h @ map the (filter (\<lambda>p. p \<noteq> None) (p # bl))"
      using h'(3) Some by simp
    moreover have "\<forall>b. blocks h' b = (if Some b \<in> set (p # bl) then None else blocks h b)"
      using h'(4) Some by auto
    ultimately show ?thesis by blast
  qed
qed

lemma push_back_empty:
  assumes "0 < epb"
  shows "push_back epb x (h, \<lparr>current_size = 0, bucket_list = []\<rparr>) =
    Inr (h\<lparr>blocks := (blocks h)(fresh h \<mapsto> (replicate epb None)[0 := Some x]), fresh := Suc (fresh h)\<rparr>,
         \<lparr>current_size = 1, bucket_list = [Some (fresh h)]\<rparr>)"
  using assms
  by (simp add: push_back_def capacity_def append_block_def new_block_def vec_back_def
      slot_ref_def store_def size_of_def)

subsection \<open>Appending\<close>

lemma owns_snoc:
  "owns epb h (bl @ [Some a]) \<longleftrightarrow> owns epb h bl \<and> Some a \<notin> set bl \<and> live_block epb h a"
  by (auto simp: owns_def)

lemma owns_append_fresh:
  assumes "owns epb h bl"
  shows "owns epb (snd (new_block epb h)) (bl @ [Some (fst (new_block epb h))])"
proof -
  have below: "\<And>a. Some a \<in> set bl \<Longrightarrow> a < fresh h"
    using owns_member [OF assms] by (simp add: live_block_def)
  then have notin: "Some (fresh h) \<notin> set bl" by blast
  have keep: "owns epb (snd (new_block epb h)) bl"
  proof (rule owns_heap_cong [OF assms])
    fix a assume a: "Some a \<in> set bl"
    with below have "a \<noteq> fresh h" by blast
    with owns_member [OF assms a] show "live_block epb (snd (new_block epb h)) a"
      by (simp add: live_block_def new_block_def)
  qed
  have "live_block epb (snd (new_block epb h)) (fresh h)"
    by (simp add: live_block_def new_block_def)
  with keep notin show ?thesis by (simp add: owns_snoc new_block_def)
qed

lemma get_at:
  assumes "i div epb < length (bucket_list v)" and "bucket_list v ! (i div epb) = Some a"
  shows "get epb (h, v) i = load h (a, i mod epb)"
  using assms by (simp add: get_def subscript_def vec_index_def slot_ref_def)

lemma list_all_upt: "list_all P [0..<n] \<longleftrightarrow> (\<forall>i<n. P i)"
  by (auto simp: list_all_iff)

lemma push_back_full:
  assumes "0 < epb" and "current_size v = capacity epb v"
  shows "push_back epb x (h, v) =
    Inr (h\<lparr>blocks := (blocks h)(fresh h \<mapsto> (replicate epb None)[0 := Some x]), fresh := Suc (fresh h)\<rparr>,
         v\<lparr>bucket_list := bucket_list v @ [Some (fresh h)], current_size := current_size v + 1\<rparr>)"
  using assms
  by (simp add: push_back_def capacity_def append_block_def new_block_def vec_back_def
      slot_ref_def store_def size_of_def)

lemma push_back_room:
  assumes "current_size v \<noteq> capacity epb v" and "bucket_list v \<noteq> []"
    and "last (bucket_list v) = Some a" and "blocks h a = Some cells"
    and "current_size v mod epb < length cells"
  shows "push_back epb x (h, v) =
    Inr (h\<lparr>blocks := (blocks h)(a \<mapsto> cells[current_size v mod epb := Some x])\<rparr>,
         v\<lparr>current_size := current_size v + 1\<rparr>)"
  using assms
  by (simp add: push_back_def vec_back_def slot_ref_def store_def size_of_def)

lemma push_back_filled:
  assumes epb: "0 < epb" and f: "filled epb s xs"
  shows "\<exists>s'. push_back epb x s = Inr s' \<and> filled epb s' (xs @ [x])"
proof -
  obtain h v where s: "s = (h, v)" by (cases s)
  let ?bl = "bucket_list v" and ?n = "current_size v"
  from f s have own: "owns epb h ?bl" and le: "?n \<le> length ?bl * epb"
    and nr: "list_all (\<lambda>p. p \<noteq> None) ?bl" and ne: "?bl \<noteq> []"
    and tight: "(length ?bl - 1) * epb \<le> ?n" and n: "?n = length xs"
    and vals: "\<forall>i<length xs. get epb (h, v) i = Inr (Some (xs ! i))"
    by (simp_all add: filled_def invar_def capacity_def no_released_def list_all_upt)
  have some: "\<And>k. k < length ?bl \<Longrightarrow> \<exists>a. ?bl ! k = Some a"
    using nr by (auto simp: list_all_length)
  have inb: "\<And>i. i < ?n \<Longrightarrow> i div epb < length ?bl"
    using le epb by (meson less_le_trans less_mult_imp_div_less)
  show ?thesis
  proof (cases "?n = capacity epb v")
    case True
    let ?a = "fresh h"
    let ?h' = "h\<lparr>blocks := (blocks h)(?a \<mapsto> (replicate epb None)[0 := Some x]), fresh := Suc ?a\<rparr>"
    let ?v' = "v\<lparr>bucket_list := ?bl @ [Some ?a], current_size := ?n + 1\<rparr>"
    have pb: "push_back epb x s = Inr (?h', ?v')"
      unfolding s by (rule push_back_full [OF epb True])
    have below: "\<And>a. Some a \<in> set ?bl \<Longrightarrow> a < ?a"
      using owns_member [OF own] by (simp add: live_block_def)
    have own': "owns epb ?h' (?bl @ [Some ?a])"
    proof -
      have "owns epb (snd (new_block epb h)) (?bl @ [Some (fst (new_block epb h))])"
        by (rule owns_append_fresh [OF own])
      then have o1: "owns epb (snd (new_block epb h)) (?bl @ [Some ?a])"
        by (simp add: new_block_def)
      show ?thesis
      proof (rule owns_heap_cong [OF o1])
        fix a assume "Some a \<in> set (?bl @ [Some ?a])"
        from owns_member [OF o1 this] epb show "live_block epb ?h' a"
          by (auto simp: live_block_def new_block_def split: if_splits)
      qed
    qed
    have nfull: "?n = length ?bl * epb" using True by (simp add: capacity_def)
    have vals': "\<forall>i<length (xs @ [x]). get epb (?h', ?v') i = Inr (Some ((xs @ [x]) ! i))"
    proof (intro allI impI)
      fix i assume "i < length (xs @ [x])"
      then consider "i < ?n" | "i = ?n" using n by fastforce
      then show "get epb (?h', ?v') i = Inr (Some ((xs @ [x]) ! i))"
      proof cases
        case 1
        from inb [OF 1] obtain a where a: "?bl ! (i div epb) = Some a" using some by blast
        with inb [OF 1] have "Some a \<in> set ?bl" by (metis nth_mem)
        from below [OF this] have aa: "a \<noteq> ?a" by simp
        have "get epb (?h', ?v') i = load ?h' (a, i mod epb)"
          using inb [OF 1] a by (intro get_at) (simp_all add: nth_append)
        also have "\<dots> = load h (a, i mod epb)" using aa by (simp add: load_def)
        also have "\<dots> = get epb (h, v) i" using inb [OF 1] a by (simp add: get_at)
        finally show ?thesis using vals 1 n by (simp add: nth_append)
      next
        case 2
        have d: "i div epb = length ?bl" and m: "i mod epb = 0"
          using 2 nfull epb by simp_all
        have "get epb (?h', ?v') i = load ?h' (?a, i mod epb)"
          using d by (intro get_at) (simp_all add: nth_append)
        also have "\<dots> = Inr (Some x)" using m epb by (simp add: load_def)
        finally show ?thesis using 2 n by (simp add: nth_append)
      qed
    qed
    have "filled epb (?h', ?v') (xs @ [x])"
      using own' nr nfull n vals' epb
      by (simp add: filled_def invar_def capacity_def no_released_def list_all_upt)
    with pb show ?thesis by blast
  next
    case False
    with le have lt: "?n < length ?bl * epb" by (simp add: capacity_def)
    have last_ix: "?n div epb = length ?bl - 1"
    proof -
      have "?n div epb < length ?bl" using lt epb by (simp add: less_mult_imp_div_less)
      moreover have "length ?bl - 1 \<le> ?n div epb"
        using tight epb by (metis div_le_mono nonzero_mult_div_cancel_right less_numeral_extra(3))
      ultimately show ?thesis by simp
    qed
    have lastlt: "length ?bl - 1 < length ?bl" using ne by simp
    from some [OF lastlt] obtain a where a: "?bl ! (length ?bl - 1) = Some a" by blast
    then have la: "last ?bl = Some a" using ne by (simp add: last_conv_nth)
    from owns_nth [OF own lastlt a] obtain cells where
      cells: "blocks h a = Some cells" "length cells = epb"
      by (auto simp: live_block_def split: option.splits)
    let ?j = "?n mod epb"
    have j: "?j < length cells" using cells epb by simp
    let ?h' = "h\<lparr>blocks := (blocks h)(a \<mapsto> cells[?j := Some x])\<rparr>"
    let ?v' = "v\<lparr>current_size := ?n + 1\<rparr>"
    have pb: "push_back epb x s = Inr (?h', ?v')"
      unfolding s by (rule push_back_room [OF False ne la cells(1) j])
    have own': "owns epb ?h' ?bl"
    proof (rule owns_heap_cong [OF own])
      fix b assume "Some b \<in> set ?bl"
      from owns_member [OF own this] cells show "live_block epb ?h' b"
        by (auto simp: live_block_def)
    qed
    have vals': "\<forall>i<length (xs @ [x]). get epb (?h', ?v') i = Inr (Some ((xs @ [x]) ! i))"
    proof (intro allI impI)
      fix i assume "i < length (xs @ [x])"
      then consider "i < ?n" | "i = ?n" using n by fastforce
      then show "get epb (?h', ?v') i = Inr (Some ((xs @ [x]) ! i))"
      proof cases
        case 1
        from inb [OF 1] obtain b where b: "?bl ! (i div epb) = Some b" using some by blast
        have g: "get epb (?h', ?v') i = load ?h' (b, i mod epb)"
          using inb [OF 1] b by (intro get_at) simp_all
        have g0: "get epb (h, v) i = load h (b, i mod epb)"
          using inb [OF 1] b by (simp add: get_at)
        have "load ?h' (b, i mod epb) = load h (b, i mod epb)"
        proof (cases "b = a")
          case False
          then show ?thesis by (simp add: load_def)
        next
          case True
          with owns_distinct_nth [OF own inb [OF 1] lastlt] a b
          have "i div epb = length ?bl - 1" by simp
          with last_ix have "i div epb = ?n div epb" by simp
          with 1 have "i mod epb \<noteq> ?j" by (metis div_mult_mod_eq less_irrefl)
          then show ?thesis using True cells by (simp add: load_def)
        qed
        with g g0 vals 1 n show ?thesis by (simp add: nth_append)
      next
        case 2
        have "get epb (?h', ?v') i = load ?h' (a, i mod epb)"
          using 2 last_ix lastlt a by (intro get_at) simp_all
        also have "\<dots> = Inr (Some x)" using 2 j by (simp add: load_def)
        finally show ?thesis using 2 n by (simp add: nth_append)
      qed
    qed
    have "filled epb (?h', ?v') (xs @ [x])"
      using own' nr ne lt tight n vals'
      by (simp add: filled_def invar_def capacity_def no_released_def list_all_upt)
    with pb show ?thesis by blast
  qed
qed

lemma push_all_filled:
  assumes "0 < epb" and "filled epb s xs"
  shows "\<exists>s'. push_all epb ys s = Inr s' \<and> filled epb s' (xs @ ys)"
  using assms(2)
proof (induction ys arbitrary: s xs)
  case Nil
  then show ?case by simp
next
  case (Cons y ys)
  from push_back_filled [OF assms(1) Cons.prems] obtain s1 where
    s1: "push_back epb y s = Inr s1" "filled epb s1 (xs @ [y])" by blast
  from Cons.IH [OF s1(2)] obtain s' where
    "push_all epb ys s1 = Inr s'" "filled epb s' ((xs @ [y]) @ ys)" by blast
  with s1(1) show ?case by simp
qed

lemma construct_filled:
  assumes "0 < epb"
  shows "filled epb (construct epb h) []"
  by (simp add: construct_def new_block_def filled_def invar_def owns_def live_block_def
      capacity_def no_released_def)

subsection \<open>Growing and the size bound\<close>

lemma invar_below_fresh: "invar epb s \<Longrightarrow> below_fresh s"
  by (auto simp: invar_def owns_def below_fresh_def live_block_def list_all_iff split: option.splits)







text \<open>
  When the growing loop returns, it has appended some blocks and the capacity, as the
  source computes it, has reached the new size.
\<close>

lemma grow_to_Some:
  assumes "grow_to epb n s = Some s'"
  shows "(\<exists>j. s' = (append_block epb ^^ j) s) \<and> n \<le> capacity epb (snd s') mod size_t_modulus"
proof (rule grow_to.raw_induct [where P = "\<lambda>epb n s s'.
    (\<exists>j. s' = (append_block epb ^^ j) s) \<and> n \<le> capacity epb (snd s') mod size_t_modulus",
    OF _ assms])
  fix g :: "nat \<Rightarrow> nat \<Rightarrow> 'a state \<Rightarrow> 'a state option" and epb n s s'
  assume IH: "\<And>epb n s s'. g epb n s = Some s' \<Longrightarrow>
      (\<exists>j. s' = (append_block epb ^^ j) s) \<and> n \<le> capacity epb (snd s') mod size_t_modulus"
    and body: "(if capacity epb (snd s) mod size_t_modulus < n
         then g epb n (append_block epb s) else Some s) = Some s'"
  show "(\<exists>j. s' = (append_block epb ^^ j) s) \<and> n \<le> capacity epb (snd s') mod size_t_modulus"
  proof (cases "capacity epb (snd s) mod size_t_modulus < n")
    case False
    with body have e: "s' = s" by simp
    then have "s' = (append_block epb ^^ 0) s" by simp
    with False e show ?thesis by (metis not_less)
  next
    case True
    with body have "g epb n (append_block epb s) = Some s'" by simp
    from IH [OF this] obtain j where
      j: "s' = (append_block epb ^^ j) (append_block epb s)"
      and c: "n \<le> capacity epb (snd s') mod size_t_modulus"
      by blast
    from j have "s' = (append_block epb ^^ Suc j) s" by (simp add: funpow_swap1)
    with c show ?thesis by blast
  qed
qed

lemma grow_to_capacity:
  assumes "grow_to epb n s = Some s'"
  shows "n \<le> capacity epb (snd s')"
proof -
  from grow_to_Some [OF assms] have "n \<le> capacity epb (snd s') mod size_t_modulus" by simp
  also have "\<dots> \<le> capacity epb (snd s')" by simp
  finally show ?thesis .
qed






lemma length_vec_resize: "length (vec_resize m bl) = m"
  by (simp add: vec_resize_def)

lemma push_back_sized:
  assumes "0 < epb" and "sized epb v" and "push_back epb x (h, v) = Inr (h', v')"
  shows "sized epb v'"
proof (cases "current_size v = capacity epb v")
  case True
  from assms(3) show ?thesis
    unfolding push_back_full [OF assms(1) True] using True assms(1)
    by (auto simp: sized_def capacity_def)
next
  case False
  with assms(2) have lt: "current_size v < capacity epb v" by (simp add: sized_def)
  from assms(3) False have "v' = v\<lparr>current_size := current_size v + 1\<rparr>"
    by (auto simp: push_back_def Let_def split: sum.splits)
  with lt show ?thesis by (simp add: sized_def capacity_def)
qed

lemma emplace_back_push_back: "emplace_back epb x s = push_back epb x s"
  by (simp add: emplace_back_def push_back_def)

lemma resize_sized:
  assumes "0 < epb" and "resize epb n (h, v) = Some (Inr (h', v'))"
  shows "sized epb v'"
proof (cases "current_size v \<le> n")
  case True
  with assms(2) obtain s' where
    s': "grow_to epb n (h, v) = Some s'" "v' = (snd s')\<lparr>current_size := n\<rparr>"
    by (auto simp: resize_def split: option.splits prod.splits)
  from grow_to_capacity [OF s'(1)] s'(2) show ?thesis by (simp add: sized_def capacity_def)
next
  case False
  with assms(2) have "v' = v\<lparr>bucket_list := vec_resize (1 + n div epb) (bucket_list v), current_size := n\<rparr>"
    by (auto simp: resize_def Let_def split: sum.splits)
  moreover have "n < (1 + n div epb) * epb" using assms(1)
    by (metis dividend_less_times_div mult.commute plus_1_eq_Suc mult_Suc)
  ultimately show ?thesis by (simp add: sized_def capacity_def length_vec_resize)
qed

lemma with_other_Inr:
  "with_other other r = Inr (h', this', other') \<longleftrightarrow> r = Inr (h', this') \<and> other' = other"
  by (cases r) (auto simp: with_other_def)

lemma step_sized:
  assumes "0 < epb" and "sized epb this" "sized epb other"
    and "step epb c (h, this, other) = Some (Inr (h', this', other'))"
  shows "sized epb this' \<and> sized epb other'"
proof (cases c)
  case (PushBack x)
  with assms(4) have p: "push_back epb x (h, this) = Inr (h', this')" and o: "other' = other"
    by (auto simp: with_other_Inr)
  from push_back_sized [OF assms(1,2) p] o assms(3) show ?thesis by simp
next
  case (EmplaceBack x)
  with assms(4) have p: "push_back epb x (h, this) = Inr (h', this')" and o: "other' = other"
    by (auto simp: with_other_Inr emplace_back_push_back)
  from push_back_sized [OF assms(1,2) p] o assms(3) show ?thesis by simp
next
  case (Reserve n)
  with assms show ?thesis by (auto simp: with_other_Inr reserve_def)
next
  case (Resize n)
  with assms(4) have r: "resize epb n (h, this) = Some (Inr (h', this'))" and o: "other' = other"
    by (auto simp: with_other_Inr)
  from resize_sized [OF assms(1) r] o assms(3) show ?thesis by simp
next
  case Clear
  with assms(4) have "this' = this\<lparr>bucket_list := [], current_size := 0\<rparr>" "other' = other"
    by (auto simp: with_other_Inr clear_def split: sum.splits)
  with assms(3) show ?thesis by (simp add: sized_def capacity_def)
next
  case Swap
  with assms show ?thesis by (auto simp: swap_dv_def sized_def capacity_def)
qed

lemma run_sized:
  assumes "0 < epb"
  shows "sized epb this \<Longrightarrow> sized epb other \<Longrightarrow>
         run epb cs (h, this, other) = Some (Inr (h', this', other')) \<Longrightarrow>
         sized epb this' \<and> sized epb other'"
proof (induction cs arbitrary: h this other)
  case Nil
  then show ?case by simp
next
  case (Cons c cs)
  from Cons.prems(3) obtain h1 this1 other1 where
    st: "step epb c (h, this, other) = Some (Inr (h1, this1, other1))"
    and rn: "run epb cs (h1, this1, other1) = Some (Inr (h', this', other'))"
    by (auto split: option.splits sum.splits)
  from step_sized [OF assms Cons.prems(1,2) st] Cons.IH [OF _ _ rn] show ?case by blast
qed

subsection \<open>The deallocation iterator\<close>

lemma div_Suc_cases:
  "Suc j div epb = j div epb \<or> Suc j div epb = Suc (j div epb)"
  by (simp add: div_Suc)

lemma rm_increment_same_bucket:
  assumes "Suc j div epb = j div epb"
  shows "rm_increment epb ((h, v), \<lparr>index = j\<rparr>) = Inr ((h, v), \<lparr>index = Suc j\<rparr>)"
  using assms by (simp add: rm_increment_def)

lemma rm_increment_next_bucket:
  assumes "Suc j div epb \<noteq> j div epb" and "j div epb < length (bucket_list v)"
    and "bucket_list v ! (j div epb) = Some a" and "blocks h a = Some cells"
  shows "rm_increment epb ((h, v), \<lparr>index = j\<rparr>) =
    Inr ((h\<lparr>blocks := (blocks h)(a := None), released := released h @ [a]\<rparr>,
          v\<lparr>bucket_list := (bucket_list v)[j div epb := None]\<rparr>), \<lparr>index = Suc j\<rparr>)"
  using assms by (simp add: rm_increment_def vec_at_def delete_array_def)

lemma tombstone_next:
  assumes "k < length bl"
  shows "(replicate k None @ drop k bl)[k := None] = replicate (Suc k) None @ drop (Suc k) bl"
proof -
  have "drop k bl = bl ! k # drop (Suc k) bl" using assms by (simp add: Cons_nth_drop_Suc)
  then show ?thesis by (simp add: list_update_append replicate_app_Cons_same)
qed

lemma drain_prefix:
  assumes epb: "0 < epb" and own: "owns epb h (bucket_list v)" and nr: "no_released v"
    and cap: "current_size v \<le> capacity epb v"
  shows "j \<le> current_size v \<Longrightarrow>
    \<exists>h'. increment_times epb j ((h, v), \<lparr>index = 0\<rparr>) =
            Inr ((h', v\<lparr>bucket_list := replicate (j div epb) None @ drop (j div epb) (bucket_list v)\<rparr>),
                 \<lparr>index = j\<rparr>) \<and>
          fresh h' = fresh h \<and>
          released h' = released h @ map the (take (j div epb) (bucket_list v)) \<and>
          (\<forall>a. blocks h' a =
             (if Some a \<in> set (take (j div epb) (bucket_list v)) then None else blocks h a))"
proof (induction j)
  case 0
  then show ?case by simp
next
  case (Suc j)
  let ?bl = "bucket_list v" and ?k = "j div epb"
  let ?vj = "v\<lparr>bucket_list := replicate ?k None @ drop ?k ?bl\<rparr>"
  from Suc obtain h' where
    run: "increment_times epb j ((h, v), \<lparr>index = 0\<rparr>) = Inr ((h', ?vj), \<lparr>index = j\<rparr>)"
    and fr: "fresh h' = fresh h"
    and rel: "released h' = released h @ map the (take ?k ?bl)"
    and blk: "\<forall>a. blocks h' a = (if Some a \<in> set (take ?k ?bl) then None else blocks h a)"
    by auto
  show ?case
  proof (cases "Suc j div epb = ?k")
    case True
    from run rm_increment_same_bucket [OF True, of h' ?vj] fr rel blk True
    show ?thesis by simp
  next
    case False
    with div_Suc_cases [of j epb] have next_k: "Suc j div epb = Suc ?k" by simp
    have "j < length ?bl * epb" using Suc.prems cap by (simp add: capacity_def)
    then have k: "?k < length ?bl" using epb by (simp add: less_mult_imp_div_less)
    from nr k obtain a where a: "?bl ! ?k = Some a"
      by (auto simp: no_released_def list_all_length)
    have notin: "Some a \<notin> set (take ?k ?bl)"
    proof
      assume "Some a \<in> set (take ?k ?bl)"
      then obtain i where i: "i < ?k" "?bl ! i = Some a"
        using k by (auto simp: in_set_conv_nth)
      with owns_distinct_nth [OF own _ k _ a, of i] k show False by simp
    qed
    from owns_nth [OF own k a] obtain cells where "blocks h a = Some cells"
      by (auto simp: live_block_def split: option.splits)
    with blk notin have live': "blocks h' a = Some cells" by simp
    let ?h'' = "h'\<lparr>blocks := (blocks h')(a := None), released := released h' @ [a]\<rparr>"
    have kj: "?k < length (bucket_list ?vj)" using k by simp
    have aj: "bucket_list ?vj ! ?k = Some a" using k a by (simp add: nth_append)
    have step: "rm_increment epb ((h', ?vj), \<lparr>index = j\<rparr>) =
        Inr ((?h'', ?vj\<lparr>bucket_list := (bucket_list ?vj)[?k := None]\<rparr>), \<lparr>index = Suc j\<rparr>)"
      by (rule rm_increment_next_bucket [OF False kj aj live'])
    have bl': "(bucket_list ?vj)[?k := None] = replicate (Suc ?k) None @ drop (Suc ?k) ?bl"
      using tombstone_next [OF k] by simp
    have tk: "take (Suc ?k) ?bl = take ?k ?bl @ [Some a]"
      using k a by (simp add: take_Suc_conv_app_nth)
    have "increment_times epb (Suc j) ((h, v), \<lparr>index = 0\<rparr>) =
        Inr ((?h'', v\<lparr>bucket_list := replicate (Suc ?k) None @ drop (Suc ?k) ?bl\<rparr>), \<lparr>index = Suc j\<rparr>)"
      using run step bl' by simp
    moreover have "fresh ?h'' = fresh h" using fr by simp
    moreover have "released ?h'' = released h @ map the (take (Suc ?k) ?bl)"
      using rel tk by simp
    moreover have "\<forall>b. blocks ?h'' b =
        (if Some b \<in> set (take (Suc ?k) ?bl) then None else blocks h b)"
      using blk tk by auto
    ultimately show ?thesis unfolding next_k by blast
  qed
qed

lemma owns_distinct_take:
  assumes "owns epb h bl" and "list_all (\<lambda>p. p \<noteq> None) bl"
  shows "distinct (map the (take k bl))"
proof -
  from assms(2) have "filter (\<lambda>p. p \<noteq> None) bl = bl" by (simp add: list_all_iff)
  with assms(1) have "distinct bl" by (simp add: owns_def)
  then have d: "distinct (take k bl)" by simp
  have "inj_on the (set (take k bl))"
  proof (rule inj_onI)
    fix p q assume "p \<in> set (take k bl)" "q \<in> set (take k bl)" "the p = the q"
    moreover from this assms(2) have "p \<noteq> None" "q \<noteq> None"
      by (auto simp: list_all_iff dest: in_set_takeD)
    ultimately show "p = q" by auto
  qed
  with d show ?thesis by (simp add: distinct_map)
qed

subsection \<open>The invariant is kept\<close>

text \<open>
  The representation invariant holds after construction, and every call that returns
  keeps it: \<^verbatim>\<open>push_back\<close>, \<^verbatim>\<open>clear\<close>, a growing \<^verbatim>\<open>resize\<close> and the increment of a
  deallocation iterator (\<^verbatim>\<open>emplace_back\<close> is \<^verbatim>\<open>push_back\<close>, \<^verbatim>\<open>reserve\<close> changes
  nothing). The shrinking \<^verbatim>\<open>resize\<close> does not keep it.
\<close>

lemma construct_invar: "invar epb (construct epb h)"
  by (simp add: construct_def new_block_def invar_def owns_def live_block_def capacity_def)

lemma store_live:
  assumes "store r x h = Inr h'"
  shows "fresh h' = fresh h \<and> (live_block epb h a \<longrightarrow> live_block epb h' a)"
  using assms by (auto simp: store_def live_block_def split: option.splits if_splits)

lemma push_back_invar:
  assumes "0 < epb" and "invar epb s" and "push_back epb x s = Inr s'"
  shows "invar epb s'"
proof -
  obtain h v where s: "s = (h, v)" by (cases s)
  obtain h' v' where s': "s' = (h', v')" by (cases s')
  from assms(2) s have own: "owns epb h (bucket_list v)" and sz: "sized epb v"
    by (simp_all add: invar_def sized_def)
  have sz': "sized epb v'"
    using push_back_sized [OF assms(1) sz] assms(3) s s' by simp
  have "owns epb h' (bucket_list v')"
  proof (cases "current_size v = capacity epb v")
    case True
    from assms(3) s s' have "push_back epb x (h, v) = Inr (h', v')" by simp
    then have h': "h' = (snd (new_block epb h))\<lparr>blocks :=
        (blocks (snd (new_block epb h)))(fresh h \<mapsto> (replicate epb None)[0 := Some x])\<rparr>"
      and v': "bucket_list v' = bucket_list v @ [Some (fst (new_block epb h))]"
      unfolding push_back_full [OF assms(1) True] by (auto simp: new_block_def)
    show ?thesis unfolding v'
    proof (rule owns_heap_cong [OF owns_append_fresh [OF own]])
      fix a assume "Some a \<in> set (bucket_list v @ [Some (fst (new_block epb h))])"
      from owns_member [OF owns_append_fresh [OF own] this]
      show "live_block epb h' a" by (auto simp: h' live_block_def)
    qed
  next
    case False
    with assms(3) s s' obtain r where "store r x h = Inr h'" and v': "bucket_list v' = bucket_list v"
      by (auto simp: push_back_def Let_def split: sum.splits)
    from store_live [OF this(1)] show ?thesis unfolding v'
      by (intro owns_heap_cong [OF own]) (auto dest: owns_member [OF own])
  qed
  with sz' s' show ?thesis by (simp add: invar_def sized_def)
qed

lemma clear_invar:
  assumes "clear s = Inr s'"
  shows "invar epb s'"
  using assms by (auto simp: clear_def invar_def owns_def capacity_def split: sum.splits prod.splits)

lemma append_block_owns:
  assumes "owns epb (fst s) (bucket_list (snd s))"
  shows "owns epb (fst (append_block epb s)) (bucket_list (snd (append_block epb s)))"
  using owns_append_fresh [OF assms] by (simp add: append_block_def split_beta)

lemma append_blocks_owns:
  assumes "owns epb (fst s) (bucket_list (snd s))"
  shows "owns epb (fst ((append_block epb ^^ j) s)) (bucket_list (snd ((append_block epb ^^ j) s)))"
  by (induction j) (simp_all add: assms append_block_owns)

lemma resize_grow_invar:
  assumes "invar epb s" and "current_size (snd s) \<le> n"
    and "resize epb n s = Some (Inr s')"
  shows "invar epb s'"
proof -
  from assms(2,3) obtain t where
    t: "grow_to epb n s = Some t" "s' = (fst t, (snd t)\<lparr>current_size := n\<rparr>)"
    by (auto simp: resize_def split: option.splits prod.splits)
  from grow_to_Some [OF t(1)] obtain j where j: "t = (append_block epb ^^ j) s" by blast
  from assms(1) have "owns epb (fst s) (bucket_list (snd s))" by (simp add: invar_def)
  from append_blocks_owns [OF this, of j] j have "owns epb (fst t) (bucket_list (snd t))" by simp
  with grow_to_capacity [OF t(1)] t(2) show ?thesis by (simp add: invar_def capacity_def)
qed

lemma distinct_filter_update:
  "distinct (filter P xs) \<Longrightarrow> \<not> P y \<Longrightarrow> distinct (filter P (xs[k := y]))"
proof (induction xs arbitrary: k)
  case Nil
  then show ?case by simp
next
  case (Cons x xs)
  show ?case
  proof (cases k)
    case 0
    with Cons.prems show ?thesis by (simp split: if_splits)
  next
    case (Suc j)
    have sub: "set (filter P (xs[j := y])) \<subseteq> set (filter P xs)"
      using Cons.prems(2) set_update_subset_insert [of xs j y] by auto
    from Cons.prems have "distinct (filter P xs)" by (simp split: if_splits)
    from Cons.IH [OF this Cons.prems(2)] have "distinct (filter P (xs[j := y]))" .
    with Cons.prems sub Suc show ?thesis by (auto split: if_splits)
  qed
qed

lemma owns_tombstone:
  assumes "owns epb h bl" and "k < length bl" and "bl ! k = Some a"
  shows "owns epb (h\<lparr>blocks := (blocks h)(a := None), released := released h @ [a]\<rparr>) (bl[k := None])"
proof -
  let ?h' = "h\<lparr>blocks := (blocks h)(a := None), released := released h @ [a]\<rparr>"
  have others: "\<And>b. Some b \<in> set (bl[k := None]) \<Longrightarrow> b \<noteq> a \<and> Some b \<in> set bl"
  proof -
    fix b assume "Some b \<in> set (bl[k := None])"
    then obtain j where j: "j < length bl" "(bl[k := None]) ! j = Some b"
      by (auto simp: in_set_conv_nth)
    then have jk: "j \<noteq> k" using assms(2) by (cases "j = k") auto
    with j have bj: "bl ! j = Some b" by simp
    have "b \<noteq> a"
    proof
      assume "b = a"
      with owns_distinct_nth [OF assms(1) j(1) assms(2) _ assms(3)] bj jk show False by simp
    qed
    with bj j(1) show "b \<noteq> a \<and> Some b \<in> set bl" by (metis nth_mem)
  qed
  have "distinct (filter (\<lambda>p. p \<noteq> None) (bl[k := None]))"
    using assms(1) by (intro distinct_filter_update) (simp_all add: owns_def)
  moreover have "list_all (\<lambda>p. case p of None \<Rightarrow> True | Some b \<Rightarrow> live_block epb ?h' b) (bl[k := None])"
    unfolding list_all_iff
  proof
    fix p assume p: "p \<in> set (bl[k := None])"
    show "case p of None \<Rightarrow> True | Some b \<Rightarrow> live_block epb ?h' b"
    proof (cases p)
      case None
      then show ?thesis by simp
    next
      case (Some b)
      with others [of b] p have "b \<noteq> a" "Some b \<in> set bl" by simp_all
      with owns_member [OF assms(1)] Some show ?thesis by (simp add: live_block_def)
    qed
  qed
  ultimately show ?thesis by (simp add: owns_def)
qed

lemma rm_increment_invar:
  assumes "invar epb s" and "rm_increment epb (s, it) = Inr (s', it')"
  shows "invar epb s'"
proof -
  obtain h v where s: "s = (h, v)" by (cases s)
  from assms(1) s have own: "owns epb h (bucket_list v)" and sz: "current_size v \<le> capacity epb v"
    by (simp_all add: invar_def)
  let ?k = "index it div epb"
  consider (same) "s' = s"
    | (freed) a where "?k < length (bucket_list v)" "bucket_list v ! ?k = Some a"
        "s' = (h\<lparr>blocks := (blocks h)(a := None), released := released h @ [a]\<rparr>,
               v\<lparr>bucket_list := (bucket_list v)[?k := None]\<rparr>)"
    using assms(2) s
    by (auto simp: rm_increment_def Let_def vec_at_def delete_array_def
        split: if_splits sum.splits option.splits)
  then show ?thesis
  proof cases
    case same
    with assms(1) show ?thesis by simp
  next
    case freed
    from owns_tombstone [OF own freed(1,2)] sz freed(3) show ?thesis
      by (simp add: invar_def capacity_def)
  qed
qed

subsection \<open>The small container, evaluated\<close>

lemma replicate_two: "replicate 2 x = [x, x]"
  by (simp add: numeral_2_eq_2)

lemmas eval_defs = construct_def empty_heap_def new_block_def push_back_def capacity_def
  append_block_def vec_back_def slot_ref_def store_def size_of_def

lemma three_pushed_eval:
  "push_all 2 [10, 20, 30] (construct 2 empty_heap) = Inr three_pushed"
  by (simp add: three_pushed_def eval_defs)

lemma three_pushed_facts:
  "current_size (snd three_pushed) = 3"
  "bucket_list (snd three_pushed) = [Some 0, Some 1]"
  "fresh (fst three_pushed) = 2"
  "released (fst three_pushed) = []"
  "blocks (fst three_pushed) 0 = Some [Some 10, Some 20]"
  "blocks (fst three_pushed) (Suc 0) = Some [Some 30, None]"
  by (simp_all add: three_pushed_def eval_defs replicate_two)

lemma three_pushed_invar: "invar 2 three_pushed"
  by (simp add: invar_def owns_def live_block_def capacity_def three_pushed_facts)

lemma three_shrunk_eval: "resize 2 1 three_pushed = Some (Inr three_shrunk)"
  by (simp add: three_shrunk_def resize_def delete_array_def three_pushed_facts split_beta)

lemma three_shrunk_facts:
  "current_size (snd three_shrunk) = 1"
  "bucket_list (snd three_shrunk) = [Some 0]"
  "fresh (fst three_shrunk) = 2"
  "blocks (fst three_shrunk) 0 = None"
  by (simp_all add: three_shrunk_def resize_def vec_resize_def delete_array_def
      three_pushed_facts split_beta)

lemma two_pushed_eval: "push_all 2 [10, 20] (construct 2 empty_heap) = Inr two_pushed"
  by (simp add: two_pushed_def eval_defs)

lemma two_pushed_facts:
  "current_size (snd two_pushed) = 2"
  "bucket_list (snd two_pushed) = [Some 0]"
  "fresh (fst two_pushed) = 1"
  "blocks (fst two_pushed) 0 = Some [Some 10, Some 20]"
  by (simp_all add: two_pushed_def eval_defs replicate_two)

lemma three_pushed_no_released: "no_released (snd three_pushed)"
  by (simp add: no_released_def three_pushed_facts)


lemma example_program_run:
  "\<exists>h. run 2 example_program (initial 2) =
     Some (Inr (h, \<lparr>current_size = 1, bucket_list = [Some 1]\<rparr>,
                  \<lparr>current_size = 1, bucket_list = [Some 4]\<rparr>))"
  by (simp add: example_program_def initial_def eval_defs with_other_def emplace_back_def
      reserve_def resize_def grow_to.simps size_t_modulus_def swap_dv_def clear_def
      delete_array_def vec_resize_def split_beta)

section \<open>The claims\<close>

subsection \<open>Draining\<close>

text \<open>
  Claim C1, as the code has it. Take a container of size \<open>N\<close> that owns its blocks and
  has released none, and a positive block capacity. Incrementing a deallocation
  iterator \<open>N\<close> times from \<^verbatim>\<open>dbegin()\<close> succeeds and ends at \<^verbatim>\<open>dend()\<close>. It releases
  exactly the blocks with a block index below \<open>N div epb\<close>, each once, in increasing
  block order, and sets their slots to null. Every block from index \<open>N div epb\<close> on, so a
  last block that is only partly filled, is still live and still in its slot at the end.
\<close>

theorem drain_releases_passed_blocks:
  assumes "0 < epb" and "invar epb (h, v)" and "no_released v"
  shows "\<exists>h'. increment_times epb (size_of v) ((h, v), dbegin v) =
            Inr ((h', v\<lparr>bucket_list := replicate (size_of v div epb) None @
                                         drop (size_of v div epb) (bucket_list v)\<rparr>), dend v) \<and>
          released h' = released h @ map the (take (size_of v div epb) (bucket_list v)) \<and>
          distinct (map the (take (size_of v div epb) (bucket_list v))) \<and>
          (\<forall>a. blocks h' a =
             (if Some a \<in> set (take (size_of v div epb) (bucket_list v)) then None else blocks h a)) \<and>
          (\<forall>k. size_of v div epb \<le> k \<and> k < length (bucket_list v) \<longrightarrow>
             live_block epb h' (the (bucket_list v ! k)))"
proof -
  let ?bl = "bucket_list v" and ?m = "current_size v div epb"
  from assms(2) have own: "owns epb h ?bl" and cap: "current_size v \<le> capacity epb v"
    by (simp_all add: invar_def)
  from drain_prefix [OF assms(1) own assms(3) cap, of "current_size v"] obtain h' where
    h': "increment_times epb (current_size v) ((h, v), \<lparr>index = 0\<rparr>) =
            Inr ((h', v\<lparr>bucket_list := replicate ?m None @ drop ?m ?bl\<rparr>), \<lparr>index = current_size v\<rparr>)"
      "fresh h' = fresh h"
      "released h' = released h @ map the (take ?m ?bl)"
      "\<forall>a. blocks h' a = (if Some a \<in> set (take ?m ?bl) then None else blocks h a)"
    by auto
  have d: "distinct (map the (take ?m ?bl))"
    using owns_distinct_take [OF own] assms(3) by (simp add: no_released_def)
  have kept: "\<forall>k. ?m \<le> k \<and> k < length ?bl \<longrightarrow> live_block epb h' (the (?bl ! k))"
  proof (intro allI impI)
    fix k assume k: "?m \<le> k \<and> k < length ?bl"
    with assms(3) obtain a where a: "?bl ! k = Some a"
      by (auto simp: no_released_def list_all_length)
    have "Some a \<notin> set (take ?m ?bl)"
    proof
      assume "Some a \<in> set (take ?m ?bl)"
      then obtain i where i: "i < ?m" "i < length ?bl" "?bl ! i = Some a"
        by (auto simp: in_set_conv_nth)
      with owns_distinct_nth [OF own i(2) _ i(3) a] k show False by simp
    qed
    with h'(2,4) owns_nth [OF own _ a] k a show "live_block epb h' (the (?bl ! k))"
      by (simp add: live_block_def)
  qed
  from h' d kept show ?thesis by (simp add: size_of_def dbegin_def dend_def)
qed

theorem drain_releases_passed_blocks_witness:
  "(0::nat) < 2 \<and> invar 2 three_pushed \<and> no_released (snd three_pushed) \<and>
   (\<exists>h'. increment_times 2 (size_of (snd three_pushed)) (three_pushed, dbegin (snd three_pushed)) =
            Inr ((h', \<lparr>current_size = 3, bucket_list = [None, Some 1]\<rparr>), \<lparr>index = 3\<rparr>) \<and>
          released h' = [0] \<and> blocks h' 0 = None \<and> live_block 2 h' 1)"
proof -
  let ?v = "snd three_pushed"
  have v: "?v = \<lparr>current_size = 3, bucket_list = [Some 0, Some 1]\<rparr>"
    by (simp add: three_pushed_facts)
  have i: "invar 2 (fst three_pushed, ?v)"
    using three_pushed_invar by simp
  from drain_releases_passed_blocks [OF _ i three_pushed_no_released]
  obtain h' where
    run: "increment_times 2 (size_of ?v) (three_pushed, dbegin ?v) =
       Inr ((h', ?v\<lparr>bucket_list := replicate (size_of ?v div 2) None @
                 drop (size_of ?v div 2) (bucket_list ?v)\<rparr>), dend ?v)"
    and rel: "released h' = released (fst three_pushed) @
       map the (take (size_of ?v div 2) (bucket_list ?v))"
    and blk: "\<forall>a. blocks h' a =
       (if Some a \<in> set (take (size_of ?v div 2) (bucket_list ?v))
        then None else blocks (fst three_pushed) a)"
    and kept: "\<forall>k. size_of ?v div 2 \<le> k \<and> k < length (bucket_list ?v) \<longrightarrow>
       live_block 2 h' (the (bucket_list ?v ! k))"
    by auto
  have half: "size_of ?v div 2 = 1" by (simp add: size_of_def three_pushed_facts)
  have "increment_times 2 (size_of ?v) (three_pushed, dbegin ?v) =
       Inr ((h', \<lparr>current_size = 3, bucket_list = [None, Some 1]\<rparr>), \<lparr>index = 3\<rparr>)"
    using run unfolding half by (simp add: v dend_def size_of_def)
  moreover have "released h' = [0]"
    using rel unfolding half by (simp add: three_pushed_facts)
  moreover have "blocks h' 0 = None"
    using blk [rule_format, of 0] unfolding half by (simp add: three_pushed_facts)
  moreover have "live_block 2 h' 1"
    using kept [rule_format, of 1] unfolding half by (simp add: three_pushed_facts)
  ultimately show ?thesis
    using three_pushed_invar three_pushed_no_released by simp
qed

text \<open>
  The claim as it was stated asks that the traversal release every block, the last,
  partly filled one too. In the small container the iterator reaches \<^verbatim>\<open>dend()\<close> after
  three increments; block 0 is released, block 1 with the third element is not.
\<close>

theorem drain_keeps_last_block:
  "push_all 2 [10, 20, 30] (construct 2 empty_heap) = Inr three_pushed \<and>
   invar 2 three_pushed \<and> no_released (snd three_pushed) \<and> size_of (snd three_pushed) = 3 \<and>
   bucket_list (snd three_pushed) = [Some 0, Some 1] \<and>
   increment_times 2 (size_of (snd three_pushed)) (three_pushed, dbegin (snd three_pushed)) =
     Inr three_drained \<and>
   snd three_drained = dend (snd three_pushed) \<and>
   bucket_list (snd (fst three_drained)) = [None, Some 1] \<and>
   released (fst (fst three_drained)) = [0] \<and>
   blocks (fst (fst three_drained)) 1 = Some [Some 30, None]"
  using three_pushed_eval three_pushed_invar three_pushed_no_released
  by (simp add: three_drained_def numeral_3_eq_3 rm_increment_def dbegin_def dend_def size_of_def
      vec_at_def delete_array_def three_pushed_facts split_beta)

subsection \<open>Shrinking\<close>

text \<open>
  Claim C2, at the small container. \<^verbatim>\<open>resize(1)\<close> returns, sets the size to 1 and
  releases both blocks. It allocates nothing: the block sequence is cut to one slot, and
  that slot keeps the address of block 0, which is released, so the representation
  invariant is lost. Reading element 0 or pushing a value then uses freed storage, and
  \<^verbatim>\<open>clear\<close>, which the destructor calls, deletes block 0 a second time.
\<close>

theorem resize_shrink_leaves_released_blocks:
  "push_all 2 [10, 20, 30] (construct 2 empty_heap) = Inr three_pushed \<and>
   invar 2 three_pushed \<and> size_of (snd three_pushed) = 3 \<and>
   resize 2 1 three_pushed = Some (Inr three_shrunk) \<and>
   current_size (snd three_shrunk) = 1 \<and>
   bucket_list (snd three_shrunk) = [Some 0] \<and>
   blocks (fst three_shrunk) 0 = None \<and>
   fresh (fst three_shrunk) = fresh (fst three_pushed) \<and>
   released (fst three_shrunk) = [0, 1] \<and>
   get 2 three_shrunk 0 = Inl (Undefined UseAfterFree) \<and>
   push_back 2 40 three_shrunk = Inl (Undefined UseAfterFree) \<and>
   clear three_shrunk = Inl (Undefined DoubleFree) \<and>
   \<not> invar 2 three_shrunk"
  using three_pushed_eval three_pushed_invar
  by (simp add: invar_def owns_def live_block_def three_shrunk_def resize_def vec_resize_def delete_array_def three_pushed_facts
      split_beta get_def subscript_def vec_index_def slot_ref_def load_def clear_def
      push_back_def capacity_def vec_back_def store_def size_of_def)

subsection \<open>Pushing\<close>

text \<open>
  Claim C3. With a positive block capacity, \<open>N\<close> calls of \<^verbatim>\<open>push_back\<close> with the values
  \<open>vs\<close> on a newly constructed container all succeed; then \<^verbatim>\<open>size()\<close> is \<open>N\<close> and
  \<^verbatim>\<open>operator[](i)\<close> refers to the \<open>i\<close>-th value pushed, for every \<open>i < N\<close>.
\<close>

theorem push_back_sequence:
  assumes "0 < epb"
  shows "\<exists>s. push_all epb vs (construct epb h) = Inr s \<and> size_of (snd s) = length vs \<and>
           (\<forall>i<length vs. get epb s i = Inr (Some (vs ! i)))"
proof -
  from push_all_filled [OF assms construct_filled [OF assms], of vs h]
  obtain s where "push_all epb vs (construct epb h) = Inr s" "filled epb s vs" by auto
  then show ?thesis by (auto simp: filled_def size_of_def list_all_upt)
qed

theorem push_back_sequence_witness:
  "(0::nat) < 2 \<and> push_all 2 [10, 20, 30] (construct 2 empty_heap) = Inr three_pushed \<and>
   size_of (snd three_pushed) = 3 \<and> get 2 three_pushed 0 = Inr (Some 10) \<and>
   get 2 three_pushed 1 = Inr (Some 20) \<and> get 2 three_pushed 2 = Inr (Some 30)"
proof -
  from push_back_sequence [of 2 "[10, 20, 30]" empty_heap] obtain s :: "nat state" where
    s: "push_all 2 [10, 20, 30] (construct 2 empty_heap) = Inr s"
      "size_of (snd s) = length [10, 20, 30 :: nat]"
      "\<forall>i<length [10, 20, 30 :: nat]. get 2 s i = Inr (Some ([10, 20, 30] ! i))"
    by auto
  from s(1) [unfolded three_pushed_eval] have e: "s = three_pushed" by simp
  from s(3) have "get 2 s 0 = Inr (Some 10)" "get 2 s 1 = Inr (Some 20)" "get 2 s 2 = Inr (Some 30)"
    by simp_all
  with s(1,2) e show ?thesis by simp
qed

subsection \<open>Capacity\<close>

text \<open>
  Claim C4. Start from construction and run any sequence of \<^verbatim>\<open>push_back\<close>,
  \<^verbatim>\<open>emplace_back\<close>, \<^verbatim>\<open>reserve\<close>, \<^verbatim>\<open>resize\<close>, \<^verbatim>\<open>clear\<close> and \<^verbatim>\<open>swap\<close> calls that return.
  In the state reached, the capacity of a container is an exact multiple of the block
  capacity and is at least its size. The block capacity is positive.
\<close>

theorem capacity_invariant:
  fixes h :: "'a heap"
  assumes "0 < epb" and "run epb cs (initial epb) = Some (Inr (h, this, other))"
  shows "epb dvd capacity epb this \<and> size_of this \<le> capacity epb this \<and>
         epb dvd capacity epb other \<and> size_of other \<le> capacity epb other"
proof -
  obtain h0 :: "'a heap" and a b where i: "initial epb = (h0, a, b)"
    by (cases "initial epb :: 'a world")
  then have "sized epb a" "sized epb b"
    by (auto simp: initial_def construct_def new_block_def sized_def capacity_def)
  from run_sized [OF assms(1) this] assms(2) i
  have "sized epb this \<and> sized epb other" by simp
  then show ?thesis by (simp add: sized_def size_of_def capacity_def)
qed

theorem capacity_invariant_witness:
  "(0::nat) < 2 \<and>
   (\<exists>h. run 2 example_program (initial 2) =
      Some (Inr (h, \<lparr>current_size = 1, bucket_list = [Some 1]\<rparr>,
                   \<lparr>current_size = 1, bucket_list = [Some 4]\<rparr>))) \<and>
   2 dvd capacity 2 \<lparr>current_size = 1, bucket_list = [Some 1]\<rparr> \<and>
   size_of \<lparr>current_size = 1, bucket_list = [Some 1]\<rparr>
     \<le> capacity 2 \<lparr>current_size = 1, bucket_list = [Some 1]\<rparr>"
proof -
  from example_program_run obtain h where
    r: "run 2 example_program (initial 2) =
      Some (Inr (h, \<lparr>current_size = 1, bucket_list = [Some 1]\<rparr>,
                   \<lparr>current_size = 1, bucket_list = [Some 4]\<rparr>))"
    by blast
  from capacity_invariant [OF _ r] r show ?thesis by auto
qed

subsection \<open>reserve\<close>

text \<open>
  Claim C6. For every container state and every argument \<open>n\<close>, \<^verbatim>\<open>reserve(n)\<close> is a
  no-op: the size, the capacity, the block sequence, the blocks in the heap and every
  stored element are what they were.
\<close>

theorem reserve_is_noop:
  "reserve n s = s \<and>
   size_of (snd (reserve n s)) = size_of (snd s) \<and>
   capacity epb (snd (reserve n s)) = capacity epb (snd s) \<and>
   bucket_list (snd (reserve n s)) = bucket_list (snd s) \<and>
   blocks (fst (reserve n s)) = blocks (fst s) \<and>
   (\<forall>i. get epb (reserve n s) i = get epb s i)"
  by (simp add: reserve_def)

subsection \<open>The distance between two iterators\<close>

lemma to_ptrdiff_wrap:
  assumes "- (2 ^ 63) \<le> d" "d < 2 ^ 63"
  shows "to_ptrdiff (nat (d mod 2 ^ 64)) = d"
proof (cases "0 \<le> d")
  case True
  with assms have "d mod 2 ^ 64 = d" by simp
  with True assms show ?thesis by (simp add: to_ptrdiff_def)
next
  case False
  then have neg: "d < 0" by simp
  have "d mod 2 ^ 64 = (d + 2 ^ 64) mod 2 ^ 64" by simp
  also have "\<dots> = d + 2 ^ 64" using assms neg by (intro mod_pos_pos_trivial) auto
  finally have m: "d mod 2 ^ 64 = d + 2 ^ 64" .
  have "\<not> nat (d + 2 ^ 64) < 2 ^ 63" using assms by simp
  then show ?thesis using assms m by (simp add: to_ptrdiff_def)
qed

text \<open>
  Claim C5. For two non-destructive iterators with the logical indices \<open>a\<close> (this one)
  and \<open>b\<close> (the other one), \<^verbatim>\<open>distance_to\<close> is \<open>b - a\<close>, the other index minus this
  one, as a signed number. The result is a \<^verbatim>\<open>std::ptrdiff_t\<close>; the statement is for
  every pair of indices whose difference that type can hold, which covers all positions
  of a container of fewer than \<open>2 ^ 63\<close> elements.
\<close>

theorem distance_to_other_minus_self:
  assumes "- (2 ^ 63) \<le> int (index other) - int (index it)"
    and "int (index other) - int (index it) < 2 ^ 63"
  shows "distance_to it other = int (index other) - int (index it)"
  using to_ptrdiff_wrap [OF assms] by (simp add: distance_to_def size_t_modulus_def)

theorem distance_to_other_minus_self_witness:
  "- (2 ^ 63) \<le> int (index \<lparr>index = 3\<rparr>) - int (index \<lparr>index = 7\<rparr>) \<and>
   int (index \<lparr>index = 3\<rparr>) - int (index \<lparr>index = 7\<rparr>) < 2 ^ 63 \<and>
   distance_to \<lparr>index = 7\<rparr> \<lparr>index = 3\<rparr> = - 4 \<and>
   distance_to \<lparr>index = 3\<rparr> \<lparr>index = 7\<rparr> = 4"
  using distance_to_other_minus_self [of "\<lparr>index = 3\<rparr>" "\<lparr>index = 7\<rparr>"]
    distance_to_other_minus_self [of "\<lparr>index = 7\<rparr>" "\<lparr>index = 3\<rparr>"]
  by simp

subsection \<open>Growing\<close>




subsection \<open>clear\<close>

text \<open>
  Claim C8, as the code has it. For a container that satisfies its representation
  invariant, \<^verbatim>\<open>clear()\<close> succeeds and leaves size 0 and capacity 0: the block sequence
  is empty and every block the container held is released, once. A \<^verbatim>\<open>push_back(x)\<close>
  after it succeeds, allocates one new block, and leaves size 1 with \<^verbatim>\<open>operator[](0)\<close>
  referring to \<open>x\<close>. The block capacity is positive. The invariant holds in every
  state reached from construction without a shrinking \<^verbatim>\<open>resize\<close>.
\<close>

theorem clear_then_push_back:
  assumes "0 < epb" and "invar epb s"
  shows "\<exists>s'. clear s = Inr s' \<and> size_of (snd s') = 0 \<and> capacity epb (snd s') = 0 \<and>
           bucket_list (snd s') = [] \<and>
           (\<forall>a. Some a \<in> set (bucket_list (snd s)) \<longrightarrow> blocks (fst s') a = None) \<and>
           released (fst s') =
             released (fst s) @ map the (filter (\<lambda>p. p \<noteq> None) (bucket_list (snd s))) \<and>
           (\<exists>s''. push_back epb x s' = Inr s'' \<and> size_of (snd s'') = 1 \<and>
              bucket_list (snd s'') = [Some (fresh (fst s))] \<and>
              live_block epb (fst s'') (fresh (fst s)) \<and>
              get epb s'' 0 = Inr (Some x))"
proof -
  obtain h v where s: "s = (h, v)" by (cases s)
  from assms(2) s have "owns epb h (bucket_list v)" by (simp add: invar_def)
  from clear_buckets_owned [OF this] obtain h' where
    h': "clear_buckets (bucket_list v) h = Inr h'" "fresh h' = fresh h"
      "released h' = released h @ map the (filter (\<lambda>p. p \<noteq> None) (bucket_list v))"
      "\<forall>a. blocks h' a = (if Some a \<in> set (bucket_list v) then None else blocks h a)"
    by blast
  let ?v' = "v\<lparr>bucket_list := [], current_size := 0\<rparr>"
  have v': "?v' = \<lparr>current_size = 0, bucket_list = []\<rparr>" by simp
  have c: "clear s = Inr (h', ?v')" using s h'(1) by (simp add: clear_def)
  let ?h'' = "h'\<lparr>blocks := (blocks h')(fresh h' \<mapsto> (replicate epb None)[0 := Some x]), fresh := Suc (fresh h')\<rparr>"
  let ?v'' = "\<lparr>current_size = 1, bucket_list = [Some (fresh h')]\<rparr>"
  have p: "push_back epb x (h', ?v') = Inr (?h'', ?v'')"
    unfolding v' by (rule push_back_empty [OF assms(1)])
  have g: "get epb (?h'', ?v'') 0 = Inr (Some x)"
    using assms(1) by (simp add: get_def subscript_def vec_index_def slot_ref_def load_def)
  have l: "live_block epb ?h'' (fresh h')" by (simp add: live_block_def)
  show ?thesis
    using c p g l h' s by (simp add: size_of_def capacity_def)
qed

theorem clear_then_push_back_witness:
  "(0::nat) < 2 \<and> invar 2 three_pushed \<and>
   (\<exists>s'. clear three_pushed = Inr s' \<and> size_of (snd s') = 0 \<and> capacity 2 (snd s') = 0 \<and>
          bucket_list (snd s') = [] \<and> blocks (fst s') 0 = None \<and> blocks (fst s') 1 = None \<and>
          released (fst s') = [0, 1] \<and>
          (\<exists>s''. push_back 2 40 s' = Inr s'' \<and> size_of (snd s'') = 1 \<and>
                 bucket_list (snd s'') = [Some 2] \<and> get 2 s'' 0 = Inr (Some 40)))"
proof -
  from clear_then_push_back [OF _ three_pushed_invar, of 40] obtain s' s'' where
    c: "clear three_pushed = Inr s'" "size_of (snd s') = 0" "capacity 2 (snd s') = 0"
      "bucket_list (snd s') = []"
    and gone: "\<forall>a. Some a \<in> set (bucket_list (snd three_pushed)) \<longrightarrow> blocks (fst s') a = None"
    and rel: "released (fst s') = released (fst three_pushed) @
       map the (filter (\<lambda>p. p \<noteq> None) (bucket_list (snd three_pushed)))"
    and p: "push_back 2 40 s' = Inr s''" "size_of (snd s'') = 1"
      "bucket_list (snd s'') = [Some (fresh (fst three_pushed))]"
      "get 2 s'' 0 = Inr (Some 40)"
    by auto
  have "blocks (fst s') 0 = None" "blocks (fst s') 1 = None"
    using gone [rule_format, of 0] gone [rule_format, of 1] by (simp_all add: three_pushed_facts)
  moreover have "released (fst s') = [0, 1]"
    using rel by (simp add: three_pushed_facts)
  moreover have "\<exists>s''. push_back 2 40 s' = Inr s'' \<and> size_of (snd s'') = 1 \<and>
      bucket_list (snd s'') = [Some 2] \<and> get 2 s'' 0 = Inr (Some 40)"
    using p by (simp add: three_pushed_facts)
  ultimately show ?thesis
    using c three_pushed_invar by simp
qed

text \<open>
  The claim as it was stated is for every container state. The state of the small
  container after \<^verbatim>\<open>resize(1)\<close> is reached by calls of the public operations alone, and
  its one slot holds the address of a released block: there \<^verbatim>\<open>clear()\<close> deletes that
  block a second time.
\<close>

theorem clear_after_shrink_fails:
  "run 2 [PushBack 10, PushBack 20, PushBack 30, Resize 1, Clear] (initial 2) =
     Some (Inl (Undefined DoubleFree)) \<and>
   push_all 2 [10, 20, 30] (construct 2 empty_heap) = Inr three_pushed \<and>
   resize 2 1 three_pushed = Some (Inr three_shrunk) \<and>
   bucket_list (snd three_shrunk) = [Some 0] \<and> blocks (fst three_shrunk) 0 = None \<and>
   clear three_shrunk = Inl (Undefined DoubleFree)"
proof -
  have "run 2 [PushBack 10, PushBack 20, PushBack 30, Resize 1, Clear] (initial 2) =
     Some (Inl (Undefined DoubleFree))"
    by (simp add: initial_def eval_defs with_other_def resize_def clear_def delete_array_def
        vec_resize_def split_beta)
  moreover have "clear three_shrunk = Inl (Undefined DoubleFree)"
    by (simp add: clear_def delete_array_def three_shrunk_facts split_beta)
  ultimately show ?thesis
    using three_pushed_eval three_shrunk_eval by (simp add: three_shrunk_facts)
qed

subsection \<open>back\<close>

text \<open>
  Claim C9, as the code has it. Take a container with size \<open>n > 0\<close> within its capacity
  that owns its blocks and has released none, and a positive block capacity.
  \<^verbatim>\<open>back()\<close> computes block and offset from \<open>n\<close>, not from \<open>n - 1\<close>. When the last block
  is not full (\<open>n\<close> below the capacity) it returns the slot of the logical position \<open>n\<close>,
  block \<open>n div epb\<close> and offset \<open>n mod epb\<close>, one past the last valid element. When the
  last block is full (\<open>n\<close> equal to the capacity) there is no block \<open>n div epb\<close>:
  \<^verbatim>\<open>back()\<close> indexes the block sequence past its end and returns no slot. In both
  cases the result is not the slot of the last stored element, which \<^verbatim>\<open>operator[]\<close>
  returns at index \<open>n - 1\<close>.
\<close>

theorem back_is_slot_past_last:
  assumes "0 < epb" and "0 < current_size v" and "current_size v \<le> capacity epb v"
    and "no_released v" and "owns epb h (bucket_list v)"
  shows "(current_size v < capacity epb v \<longrightarrow>
            back_dv epb v = Inr (the (bucket_list v ! (current_size v div epb)), current_size v mod epb)) \<and>
         (current_size v = capacity epb v \<longrightarrow> back_dv epb v = Inl (Undefined IndexPastEnd)) \<and>
         subscript epb v (current_size v - 1) =
           Inr (the (bucket_list v ! ((current_size v - 1) div epb)), (current_size v - 1) mod epb) \<and>
         back_dv epb v \<noteq> subscript epb v (current_size v - 1)"
proof -
  let ?n = "current_size v" and ?bl = "bucket_list v"
  have same: "back_dv epb v = subscript epb v ?n"
    by (simp add: back_dv_def subscript_def)
  have nn: "\<And>k. k < length ?bl \<Longrightarrow> \<exists>a. ?bl ! k = Some a"
    using assms(4) by (auto simp: no_released_def list_all_length)
  have lt: "(?n - 1) div epb < length ?bl"
  proof -
    have "?n - 1 < length ?bl * epb" using assms(2,3) by (simp add: capacity_def)
    then show ?thesis using assms(1) by (simp add: less_mult_imp_div_less)
  qed
  then obtain a where a: "?bl ! ((?n - 1) div epb) = Some a" using nn by blast
  have prev: "subscript epb v (?n - 1) = Inr (a, (?n - 1) mod epb)"
    using lt a by (simp add: subscript_def vec_index_def slot_ref_def)
  have differ: "subscript epb v ?n \<noteq> subscript epb v (?n - 1)"
  proof (cases "?n div epb < length ?bl")
    case False
    then have "subscript epb v ?n = Inl (Undefined IndexPastEnd)"
      by (simp add: subscript_def vec_index_def)
    with prev show ?thesis by simp
  next
    case True
    then obtain b where b: "?bl ! (?n div epb) = Some b" using nn by blast
    have cur: "subscript epb v ?n = Inr (b, ?n mod epb)"
      using True b by (simp add: subscript_def vec_index_def slot_ref_def)
    show ?thesis
    proof
      assume "subscript epb v ?n = subscript epb v (?n - 1)"
      with cur prev have ab: "b = a" and m: "?n mod epb = (?n - 1) mod epb" by simp_all
      from owns_distinct_nth [OF assms(5) True lt] a b ab
      have "?n div epb = (?n - 1) div epb" by simp
      with m have "?n = ?n - 1" by (metis div_mult_mod_eq)
      with assms(2) show False by simp
    qed
  qed
  have room: "?n < capacity epb v \<longrightarrow>
      back_dv epb v = Inr (the (?bl ! (?n div epb)), ?n mod epb)"
  proof
    assume "?n < capacity epb v"
    then have t: "?n div epb < length ?bl"
      using assms(1) by (simp add: capacity_def less_mult_imp_div_less)
    then obtain b where b: "?bl ! (?n div epb) = Some b" using nn by blast
    then show "back_dv epb v = Inr (the (?bl ! (?n div epb)), ?n mod epb)"
      using t by (simp add: back_dv_def vec_index_def slot_ref_def)
  qed
  have full: "?n = capacity epb v \<longrightarrow> back_dv epb v = Inl (Undefined IndexPastEnd)"
  proof
    assume "?n = capacity epb v"
    then have "?n div epb = length ?bl" using assms(1) by (simp add: capacity_def)
    then show "back_dv epb v = Inl (Undefined IndexPastEnd)"
      by (simp add: back_dv_def vec_index_def)
  qed
  from same differ room full prev a show ?thesis by simp
qed

theorem back_is_slot_past_last_witness:
  "(0::nat) < 2 \<and> 0 < current_size (snd three_pushed) \<and>
   current_size (snd three_pushed) \<le> capacity 2 (snd three_pushed) \<and>
   no_released (snd three_pushed) \<and> owns 2 (fst three_pushed) (bucket_list (snd three_pushed)) \<and>
   current_size (snd three_pushed) < capacity 2 (snd three_pushed) \<and>
   back_dv 2 (snd three_pushed) = Inr (1, 1) \<and>
   subscript 2 (snd three_pushed) 2 = Inr (1, 0) \<and>
   back_dv 2 (snd three_pushed) \<noteq> subscript 2 (snd three_pushed) 2 \<and>
   0 < current_size (snd two_pushed) \<and>
   no_released (snd two_pushed) \<and> owns 2 (fst two_pushed) (bucket_list (snd two_pushed)) \<and>
   current_size (snd two_pushed) = capacity 2 (snd two_pushed) \<and>
   back_dv 2 (snd two_pushed) = Inl (Undefined IndexPastEnd) \<and>
   subscript 2 (snd two_pushed) 1 = Inr (0, 1)"
proof -
  let ?v = "snd three_pushed" and ?w = "snd two_pushed"
  have two: "(0::nat) < 2" by simp
  have a: "0 < current_size ?v"
    and b: "current_size ?v \<le> capacity 2 ?v"
    and c: "owns 2 (fst three_pushed) (bucket_list ?v)"
    and r: "current_size ?v < capacity 2 ?v"
    using three_pushed_invar by (simp_all add: three_pushed_facts invar_def capacity_def)
  note t = back_is_slot_past_last [OF two a b three_pushed_no_released c]
  have t1: "back_dv 2 ?v = Inr (1, 1)"
    using t [THEN conjunct1] by (simp add: three_pushed_facts capacity_def)
  have t2: "subscript 2 ?v 2 = Inr (1, 0)"
    using t [THEN conjunct2, THEN conjunct2, THEN conjunct1] by (simp add: three_pushed_facts)
  have t3: "back_dv 2 ?v \<noteq> subscript 2 ?v 2"
    using t [THEN conjunct2, THEN conjunct2, THEN conjunct2] by (simp add: three_pushed_facts)
  have a': "0 < current_size ?w"
    and b': "current_size ?w \<le> capacity 2 ?w"
    and n': "no_released ?w"
    and c': "owns 2 (fst two_pushed) (bucket_list ?w)"
    and f': "current_size ?w = capacity 2 ?w"
    by (simp_all add: two_pushed_facts capacity_def no_released_def owns_def live_block_def)
  note u = back_is_slot_past_last [OF two a' b' n' c']
  have u1: "back_dv 2 ?w = Inl (Undefined IndexPastEnd)"
    using u [THEN conjunct2, THEN conjunct1] f' by simp
  have u2: "subscript 2 ?w 1 = Inr (0, 1)"
    using u [THEN conjunct2, THEN conjunct2, THEN conjunct1] by (simp add: two_pushed_facts)
  from two a b three_pushed_no_released c r t1 t2 t3 a' n' c' f' u1 u2
  show ?thesis by (intro conjI) assumption+
qed

text \<open>
  The claim as it was stated has \<^verbatim>\<open>back()\<close> return the slot of position \<open>n\<close> for every
  container with \<open>n > 0\<close> and no released block. After two pushes with blocks of two
  elements the one block is full: \<^verbatim>\<open>back()\<close> asks for block 1 of a block sequence with
  the single slot 0 and returns no slot.
\<close>

theorem back_of_full_block_no_slot:
  "push_all 2 [10, 20] (construct 2 empty_heap) = Inr two_pushed \<and>
   size_of (snd two_pushed) = 2 \<and> no_released (snd two_pushed) \<and>
   bucket_list (snd two_pushed) = [Some 0] \<and>
   back_dv 2 (snd two_pushed) = Inl (Undefined IndexPastEnd)"
  using two_pushed_eval
  by (simp add: size_of_def no_released_def back_dv_def vec_index_def two_pushed_facts)

subsection \<open>Checked and unchecked access\<close>

text \<open>
  Claim C10. When the logical index \<open>i\<close> of an iterator, of either kind, has
  \<open>i div epb\<close> at or beyond the number of slots of the block sequence, dereferencing
  the iterator fails with the out-of-range exception of the checked lookup and returns
  no reference. \<^verbatim>\<open>operator[]\<close> makes no such check at any index: it never fails that
  way, and at such an index it reads past the end of the block sequence.
\<close>

theorem dereference_checked_subscript_unchecked:
  assumes "0 < epb" and "length (bucket_list v) \<le> index it div epb"
  shows "dereference epb v it = Inl OutOfRange \<and>
         rm_dereference epb v it = Inl OutOfRange \<and>
         subscript epb v (index it) = Inl (Undefined IndexPastEnd) \<and>
         (\<forall>i. subscript epb v i \<noteq> Inl OutOfRange)"
  using assms
  by (auto simp: dereference_def rm_dereference_def subscript_def vec_at_def vec_index_def
      slot_ref_def Let_def split: option.splits if_splits)

theorem dereference_checked_subscript_unchecked_witness:
  "(0::nat) < 2 \<and>
   length (bucket_list \<lparr>current_size = 1, bucket_list = [Some 0]\<rparr>) \<le> index \<lparr>index = 2\<rparr> div 2 \<and>
   dereference 2 \<lparr>current_size = 1, bucket_list = [Some 0]\<rparr> \<lparr>index = 2\<rparr> = Inl OutOfRange \<and>
   rm_dereference 2 \<lparr>current_size = 1, bucket_list = [Some 0]\<rparr> \<lparr>index = 2\<rparr> = Inl OutOfRange \<and>
   subscript 2 \<lparr>current_size = 1, bucket_list = [Some 0]\<rparr> 2 = Inl (Undefined IndexPastEnd)"
  using dereference_checked_subscript_unchecked
    [of 2 "\<lparr>current_size = 1, bucket_list = [Some 0]\<rparr>" "\<lparr>index = 2\<rparr>"]
  by simp

end
